theory Spec2Isabelle
  imports Complex_Main
begin

section \<open>Chocoflan: lexer, parser and stack machine of \<^verbatim>\<open>lang.py\<close>\<close>

text \<open>
  The source text is a Python \<^verbatim>\<open>str\<close>. It is modelled as a \<^typ>\<open>string\<close> whose
  characters are the code points below 256; the character classes below are Python's
  \<^verbatim>\<open>str.isspace\<close>, \<^verbatim>\<open>str.isalpha\<close>, \<^verbatim>\<open>str.isalnum\<close>, \<^verbatim>\<open>str.isdigit\<close> and
  \<^verbatim>\<open>str.lower\<close> on exactly these code points.
\<close>

subsection \<open>Character classes of the Python runtime\<close>

definition isspace :: "char \<Rightarrow> bool" where
  "isspace c = (let k = (of_char c :: nat) in
     (9 \<le> k \<and> k \<le> 13) \<or> (28 \<le> k \<and> k \<le> 32) \<or> k = 133 \<or> k = 160)"

definition isalpha :: "char \<Rightarrow> bool" where
  "isalpha c = (let k = (of_char c :: nat) in
     (65 \<le> k \<and> k \<le> 90) \<or> (97 \<le> k \<and> k \<le> 122) \<or> k = 170 \<or> k = 181 \<or> k = 186 \<or>
     (192 \<le> k \<and> k \<le> 214) \<or> (216 \<le> k \<and> k \<le> 246) \<or> 248 \<le> k)"

definition isdecimal :: "char \<Rightarrow> bool" where
  "isdecimal c = (let k = (of_char c :: nat) in 48 \<le> k \<and> k \<le> 57)"

definition isdigit :: "char \<Rightarrow> bool" where
  "isdigit c = (let k = (of_char c :: nat) in
     (48 \<le> k \<and> k \<le> 57) \<or> k = 178 \<or> k = 179 \<or> k = 185)"

definition isalnum :: "char \<Rightarrow> bool" where
  "isalnum c = (let k = (of_char c :: nat) in
     isalpha c \<or> isdigit c \<or> (188 \<le> k \<and> k \<le> 190))"

definition lower_char :: "char \<Rightarrow> char" where
  "lower_char c = (let k = (of_char c :: nat) in
     if (65 \<le> k \<and> k \<le> 90) \<or> (192 \<le> k \<and> k \<le> 214) \<or> (216 \<le> k \<and> k \<le> 222)
     then char_of (k + 32) else c)"

definition lower :: "string \<Rightarrow> string" where
  "lower s = map lower_char s"

subsection \<open>Tokens, instructions and failures\<close>

text \<open>
  Token types and opcodes are string tags in the source; they are closed enumerations
  here. A token's \<^verbatim>\<open>val\<close> is \<^verbatim>\<open>None\<close>, a \<^verbatim>\<open>str\<close> or an \<^verbatim>\<open>int\<close>.
\<close>

datatype toktype = MAIN | END | DEF | IDENT | NUMBER | ADD | SUB | MUL | DIV | EOF | ERROR

datatype payload = VNone | VStr (the_str: string) | VInt (the_int: int)

record Token =
  type :: toktype
  val :: payload
  pos :: nat

text \<open>
  An instruction is the pair \<^verbatim>\<open>(op, arg)\<close> of the source: \<^verbatim>\<open>("PUSH", n)\<close> is
  \<open>Push n\<close>, \<^verbatim>\<open>("HALT", None)\<close> is \<open>Halt\<close>. The datatype is closed, so the
  \<^verbatim>\<open>Unknown opcode\<close> branch of \<^verbatim>\<open>VM.run\<close> has no instruction that reaches it.
\<close>

datatype instr = Push int | Load string | Store string | Add | Sub | Mul | Div | Halt

text \<open>
  Exceptions are values. \<open>SyntaxError msg tok\<close> stands for the message
  \<^verbatim>\<open>f"{msg} at pos {tok.pos}, got {tok}"\<close>; the other failures carry their message.
\<close>

datatype error =
    SyntaxError string Token
  | RuntimeError string
  | NameError string
  | ZeroDivisionError string
  | ValueError string

subsection \<open>Lexer\<close>

record Lexer =
  src :: string
  i :: nat
  n :: nat

definition Lexer_init :: "string \<Rightarrow> Lexer" where
  "Lexer_init s = \<lparr>src = s, i = 0, n = length s\<rparr>"

definition KEYWORDS :: "string \<rightharpoonup> toktype" where
  "KEYWORDS = [''main'' \<mapsto> MAIN, ''end'' \<mapsto> END, ''def'' \<mapsto> DEF]"

definition peek :: "Lexer \<Rightarrow> char" where
  "peek L = (if i L < n L then src L ! i L else CHR 0x00)"

definition advance :: "Lexer \<Rightarrow> char \<times> Lexer" where
  "advance L = (peek L, L\<lparr>i := i L + 1\<rparr>)"

lemma isspace_nul: "\<not> isspace (CHR 0x00)"
  by (simp add: isspace_def)

lemma isalnum_nul: "\<not> isalnum (CHR 0x00)"
  by (simp add: isalnum_def isalpha_def isdigit_def)

lemma isdigit_nul: "\<not> isdigit (CHR 0x00)"
  by (simp add: isdigit_def)

lemma isspace_peek: "isspace (peek L) \<Longrightarrow> i L < n L"
  by (cases "i L < n L") (auto simp: peek_def isspace_nul)

lemma isalnum_peek: "isalnum (peek L) \<Longrightarrow> i L < n L"
  by (cases "i L < n L") (auto simp: peek_def isalnum_nul)

lemma isdigit_peek: "isdigit (peek L) \<Longrightarrow> i L < n L"
  by (cases "i L < n L") (auto simp: peek_def isdigit_nul)

lemma not_nul_peek: "peek L \<noteq> CHR 0x00 \<Longrightarrow> i L < n L"
  by (cases "i L < n L") (auto simp: peek_def)

lemma underscore_peek: "peek L = CHR ''_'' \<Longrightarrow> i L < n L"
  by (rule not_nul_peek) simp

function consume_ws :: "Lexer \<Rightarrow> Lexer" where
  "consume_ws L = (if isspace (peek L) then consume_ws (snd (advance L)) else L)"
  by pat_completeness auto
termination
  by (relation "measure (\<lambda>L. n L - i L)")
     (auto simp: advance_def dest: isspace_peek)

declare consume_ws.simps [simp del]

text \<open>The loop \<^verbatim>\<open>while self.peek().isalnum() or self.peek() == '_': self.advance()\<close>.\<close>

function ident_loop :: "Lexer \<Rightarrow> Lexer" where
  "ident_loop L =
     (if isalnum (peek L) \<or> peek L = CHR ''_'' then ident_loop (snd (advance L)) else L)"
  by pat_completeness auto
termination
  by (relation "measure (\<lambda>L. n L - i L)")
     (auto simp: advance_def dest: isalnum_peek underscore_peek)

declare ident_loop.simps [simp del]

text \<open>The loop \<^verbatim>\<open>while self.peek().isdigit(): self.advance()\<close>.\<close>

function number_loop :: "Lexer \<Rightarrow> Lexer" where
  "number_loop L = (if isdigit (peek L) then number_loop (snd (advance L)) else L)"
  by pat_completeness auto
termination
  by (relation "measure (\<lambda>L. n L - i L)")
     (auto simp: advance_def dest: isdigit_peek)

declare number_loop.simps [simp del]

text \<open>The slice \<^verbatim>\<open>s[a:b]\<close> for \<open>a \<le> b \<le> len(s)\<close>.\<close>

definition slice :: "string \<Rightarrow> nat \<Rightarrow> nat \<Rightarrow> string" where
  "slice s a b = take (b - a) (drop a s)"

text \<open>
  Python's \<^verbatim>\<open>int(text)\<close> on a run of \<^verbatim>\<open>isdigit\<close> characters. CPython reads the
  leading decimal digits first: more than 4300 of them (the default of
  \<^verbatim>\<open>sys.int_info.default_max_str_digits\<close>, leading zeros counted) raise
  \<^verbatim>\<open>ValueError: Exceeds the limit (4300 digits) for integer string conversion\<close>.
  Otherwise the result is the value in base 10 when every character is a decimal digit,
  and \<^verbatim>\<open>ValueError: invalid literal for int() with base 10\<close> when not (the
  superscript digits satisfy \<^verbatim>\<open>isdigit\<close> and are refused by \<^verbatim>\<open>int\<close>). The failure
  carries the fixed part of the message. Below the limit integers are unbounded.
\<close>

definition max_str_digits :: nat where
  "max_str_digits = 4300"

definition digit_val :: "char \<Rightarrow> int" where
  "digit_val c = int (of_char c) - 48"

definition py_int :: "string \<Rightarrow> error + int" where
  "py_int text =
     (if max_str_digits < length (takeWhile isdecimal text)
      then Inl (ValueError ''Exceeds the limit (4300 digits) for integer string conversion'')
      else if text \<noteq> [] \<and> list_all isdecimal text
      then Inr (foldl (\<lambda>a c. 10 * a + digit_val c) 0 text)
      else Inl (ValueError ''invalid literal for int() with base 10''))"

definition next_token :: "Lexer \<Rightarrow> error + Token \<times> Lexer" where
  "next_token L0 =
     (let L = consume_ws L0; ch = peek L; p = i L in
      if ch = CHR 0x00 then Inr (\<lparr>type = EOF, val = VNone, pos = p\<rparr>, L)
      else if isalpha ch \<or> ch = CHR ''_'' then
        (let start = i L; L1 = ident_loop L; text = slice (src L1) start (i L1) in
         case KEYWORDS (lower text) of
           Some kw \<Rightarrow> Inr (\<lparr>type = kw, val = VStr text, pos = p\<rparr>, L1)
         | None \<Rightarrow> Inr (\<lparr>type = IDENT, val = VStr text, pos = p\<rparr>, L1))
      else if isdigit ch then
        (let start = i L; L1 = number_loop L in
         case py_int (slice (src L1) start (i L1)) of
           Inl e \<Rightarrow> Inl e
         | Inr num \<Rightarrow> Inr (\<lparr>type = NUMBER, val = VInt num, pos = p\<rparr>, L1))
      else
        (let (c, L1) = advance L in
         if c = CHR ''+'' then Inr (\<lparr>type = ADD, val = VStr ''+'', pos = p\<rparr>, L1)
         else if c = CHR ''-'' then Inr (\<lparr>type = SUB, val = VStr ''-'', pos = p\<rparr>, L1)
         else if c = CHR ''*'' then Inr (\<lparr>type = MUL, val = VStr ''*'', pos = p\<rparr>, L1)
         else if c = CHR ''/'' then Inr (\<lparr>type = DIV, val = VStr ''/'', pos = p\<rparr>, L1)
         else Inr (\<lparr>type = ERROR, val = VStr [c], pos = p\<rparr>, L1)))"

lemma consume_ws_step: "isspace (peek L) \<Longrightarrow> consume_ws L = consume_ws (L\<lparr>i := i L + 1\<rparr>)"
  by (subst consume_ws.simps) (simp add: advance_def)

lemma consume_ws_stop: "\<not> isspace (peek L) \<Longrightarrow> consume_ws L = L"
  by (subst consume_ws.simps) simp

lemma ident_loop_step:
  "isalnum (peek L) \<or> peek L = CHR ''_'' \<Longrightarrow> ident_loop L = ident_loop (L\<lparr>i := i L + 1\<rparr>)"
  by (subst ident_loop.simps) (simp add: advance_def)

lemma ident_loop_stop: "\<not> (isalnum (peek L) \<or> peek L = CHR ''_'') \<Longrightarrow> ident_loop L = L"
  by (subst ident_loop.simps) simp

lemma number_loop_step: "isdigit (peek L) \<Longrightarrow> number_loop L = number_loop (L\<lparr>i := i L + 1\<rparr>)"
  by (subst number_loop.simps) (simp add: advance_def)

lemma number_loop_stop: "\<not> isdigit (peek L) \<Longrightarrow> number_loop L = L"
  by (subst number_loop.simps) simp

lemma consume_ws_frame:
  "src (consume_ws L) = src L \<and> n (consume_ws L) = n L \<and> i L \<le> i (consume_ws L)"
proof (induction L rule: consume_ws.induct)
  case (1 L)
  show ?case
  proof (cases "isspace (peek L)")
    case True
    with 1 show ?thesis by (simp add: consume_ws_step advance_def)
  next
    case False
    then show ?thesis by (simp add: consume_ws_stop)
  qed
qed

lemma ident_loop_frame:
  "src (ident_loop L) = src L \<and> n (ident_loop L) = n L \<and> i L \<le> i (ident_loop L)"
proof (induction L rule: ident_loop.induct)
  case (1 L)
  show ?case
  proof (cases "isalnum (peek L) \<or> peek L = CHR ''_''")
    case True
    with 1 have "src (ident_loop (L\<lparr>i := i L + 1\<rparr>)) = src L
        \<and> n (ident_loop (L\<lparr>i := i L + 1\<rparr>)) = n L
        \<and> i L + 1 \<le> i (ident_loop (L\<lparr>i := i L + 1\<rparr>))"
      by (simp add: advance_def)
    with True show ?thesis by (simp add: ident_loop_step)
  next
    case False
    then show ?thesis by (simp add: ident_loop_stop)
  qed
qed

lemma number_loop_frame:
  "src (number_loop L) = src L \<and> n (number_loop L) = n L \<and> i L \<le> i (number_loop L)"
proof (induction L rule: number_loop.induct)
  case (1 L)
  show ?case
  proof (cases "isdigit (peek L)")
    case True
    with 1 show ?thesis by (simp add: number_loop_step advance_def)
  next
    case False
    then show ?thesis by (simp add: number_loop_stop)
  qed
qed

lemma isalpha_isalnum: "isalpha c \<Longrightarrow> isalnum c"
  by (simp add: isalnum_def)

lemma ident_loop_progress:
  assumes "isalpha (peek L) \<or> peek L = CHR ''_''"
  shows "i L < i (ident_loop L)"
proof -
  have "ident_loop L = ident_loop (L\<lparr>i := i L + 1\<rparr>)"
    using assms by (intro ident_loop_step) (auto simp: isalpha_isalnum)
  moreover have "i (L\<lparr>i := i L + 1\<rparr>) \<le> i (ident_loop (L\<lparr>i := i L + 1\<rparr>))"
    using ident_loop_frame by blast
  ultimately show ?thesis by simp
qed

lemma number_loop_progress:
  assumes "isdigit (peek L)"
  shows "i L < i (number_loop L)"
proof -
  have "number_loop L = number_loop (L\<lparr>i := i L + 1\<rparr>)"
    using assms by (rule number_loop_step)
  moreover have "i (L\<lparr>i := i L + 1\<rparr>) \<le> i (number_loop (L\<lparr>i := i L + 1\<rparr>))"
    using number_loop_frame by blast
  ultimately show ?thesis by simp
qed

lemma KEYWORDS_cases:
  "KEYWORDS s = None \<or> KEYWORDS s = Some MAIN \<or> KEYWORDS s = Some END \<or> KEYWORDS s = Some DEF"
  unfolding KEYWORDS_def by (simp only: fun_upd_apply split: if_split) simp

text \<open>
  A call of \<open>next_token\<close> that returns keeps \<open>n\<close>; unless the token is \<open>EOF\<close>, the
  cursor has moved forward from a position inside the text.
\<close>

lemma next_token_eof:
  "peek (consume_ws L) = CHR 0x00 \<Longrightarrow>
   next_token L = Inr (\<lparr>type = EOF, val = VNone, pos = i (consume_ws L)\<rparr>, consume_ws L)"
  by (simp add: next_token_def Let_def)

lemma next_token_ident:
  assumes "peek (consume_ws L) \<noteq> CHR 0x00"
    and "isalpha (peek (consume_ws L)) \<or> peek (consume_ws L) = CHR ''_''"
  shows "next_token L =
    (let K = consume_ws L; L1 = ident_loop K; text = slice (src L1) (i K) (i L1) in
     Inr (\<lparr>type = (case KEYWORDS (lower text) of Some kw \<Rightarrow> kw | None \<Rightarrow> IDENT),
           val = VStr text, pos = i K\<rparr>, L1))"
  using assms by (simp add: next_token_def Let_def split: option.splits)

lemma next_token_number:
  assumes "peek (consume_ws L) \<noteq> CHR 0x00"
    and "\<not> (isalpha (peek (consume_ws L)) \<or> peek (consume_ws L) = CHR ''_'')"
    and "isdigit (peek (consume_ws L))"
  shows "next_token L =
    (let K = consume_ws L; L1 = number_loop K in
     case py_int (slice (src L1) (i K) (i L1)) of
       Inl e \<Rightarrow> Inl e
     | Inr num \<Rightarrow> Inr (\<lparr>type = NUMBER, val = VInt num, pos = i K\<rparr>, L1))"
  using assms by (simp add: next_token_def Let_def)

definition op_type :: "char \<Rightarrow> toktype" where
  "op_type c = (if c = CHR ''+'' then ADD else if c = CHR ''-'' then SUB
     else if c = CHR ''*'' then MUL else if c = CHR ''/'' then DIV else ERROR)"

lemma next_token_other:
  assumes "peek (consume_ws L) \<noteq> CHR 0x00"
    and "\<not> (isalpha (peek (consume_ws L)) \<or> peek (consume_ws L) = CHR ''_'')"
    and "\<not> isdigit (peek (consume_ws L))"
  shows "next_token L =
    (let K = consume_ws L; c = peek K in
     Inr (\<lparr>type = op_type c, val = VStr [c], pos = i K\<rparr>, K\<lparr>i := i K + 1\<rparr>))"
  using assms by (simp add: next_token_def Let_def advance_def op_type_def)

lemma next_token_progress:
  assumes "next_token L = Inr (t, L')"
  shows "n L' = n L \<and> i L \<le> i L' \<and> (type t \<noteq> EOF \<longrightarrow> i L < i L' \<and> i L < n L)"
proof -
  define K where "K = consume_ws L"
  have K: "n K = n L" "i L \<le> i K"
    using consume_ws_frame [of L] by (simp_all add: K_def)
  show ?thesis
  proof (cases "peek K = CHR 0x00")
    case True
    with assms K show ?thesis
      by (auto simp: next_token_eof K_def)
  next
    case nonnul: False
    then have inside: "i K < n K" by (rule not_nul_peek)
    show ?thesis
    proof (cases "isalpha (peek K) \<or> peek K = CHR ''_''")
      case True
      then have "i K < i (ident_loop K)" by (rule ident_loop_progress)
      moreover have "n (ident_loop K) = n K" using ident_loop_frame by blast
      moreover have "L' = ident_loop K"
        using assms nonnul True by (auto simp: next_token_ident K_def Let_def)
      ultimately show ?thesis using K inside by simp
    next
      case notid: False
      show ?thesis
      proof (cases "isdigit (peek K)")
        case True
        then have "i K < i (number_loop K)" by (rule number_loop_progress)
        moreover have "n (number_loop K) = n K" using number_loop_frame by blast
        moreover have "L' = number_loop K"
          using assms nonnul notid True
          by (auto simp: next_token_number K_def Let_def split: sum.splits)
        ultimately show ?thesis using K inside by simp
      next
        case False
        with assms nonnul notid have "L' = K\<lparr>i := i K + 1\<rparr>"
          by (auto simp: next_token_other K_def Let_def)
        then show ?thesis using K inside by simp
      qed
    qed
  qed
qed

subsection \<open>Parser and code generator\<close>

record Parser =
  lexer :: Lexer
  cur :: Token
  code :: "instr list"

definition Parser_init :: "Lexer \<Rightarrow> error + Parser" where
  "Parser_init L =
     (case next_token L of
        Inl e \<Rightarrow> Inl e
      | Inr (t, L') \<Rightarrow> Inr \<lparr>lexer = L', cur = t, code = []\<rparr>)"

definition error :: "Parser \<Rightarrow> string \<Rightarrow> error" where
  "error p msg = SyntaxError msg (cur p)"

definition match :: "toktype \<Rightarrow> Parser \<Rightarrow> error + bool \<times> Parser" where
  "match typ p =
     (if type (cur p) = typ then
        (case next_token (lexer p) of
           Inl e \<Rightarrow> Inl e
         | Inr (t, L') \<Rightarrow> Inr (True, p\<lparr>lexer := L', cur := t\<rparr>))
      else Inr (False, p))"

text \<open>The text that \<^verbatim>\<open>f"{typ}"\<close> prints for a token type.\<close>

fun toktype_name :: "toktype \<Rightarrow> string" where
  "toktype_name MAIN = ''MAIN''"
| "toktype_name END = ''END''"
| "toktype_name DEF = ''DEF''"
| "toktype_name IDENT = ''IDENT''"
| "toktype_name NUMBER = ''NUMBER''"
| "toktype_name ADD = ''ADD''"
| "toktype_name SUB = ''SUB''"
| "toktype_name MUL = ''MUL''"
| "toktype_name DIV = ''DIV''"
| "toktype_name EOF = ''EOF''"
| "toktype_name ERROR = ''ERROR''"

definition expect :: "toktype \<Rightarrow> Parser \<Rightarrow> error + Parser" where
  "expect typ p =
     (case match typ p of
        Inl e \<Rightarrow> Inl e
      | Inr (ok, p') \<Rightarrow>
          if \<not> ok then Inl (error p' (''Expected '' @ toktype_name typ)) else Inr p')"

definition emit :: "instr \<Rightarrow> Parser \<Rightarrow> Parser" where
  "emit ins p = p\<lparr>code := code p @ [ins]\<rparr>"

text \<open>\<^verbatim>\<open>self.emit(t)\<close> for an operator token emits the opcode of the same name.\<close>

fun opcode :: "toktype \<Rightarrow> instr" where
  "opcode ADD = Add"
| "opcode SUB = Sub"
| "opcode MUL = Mul"
| "opcode DIV = Div"

definition expression :: "Parser \<Rightarrow> error + Parser" where
  "expression p =
     (let t = type (cur p) in
      if t = NUMBER then
        (let v = val (cur p) in
         case match NUMBER p of
           Inl e \<Rightarrow> Inl e
         | Inr (_, p1) \<Rightarrow> Inr (emit (Push (the_int v)) p1))
      else if t = IDENT then
        (let name = val (cur p) in
         case match IDENT p of
           Inl e \<Rightarrow> Inl e
         | Inr (_, p1) \<Rightarrow> Inr (emit (Load (the_str name)) p1))
      else if t = DEF then
        (case match DEF p of
           Inl e \<Rightarrow> Inl e
         | Inr (_, p1) \<Rightarrow>
             if type (cur p1) \<noteq> IDENT
             then Inl (error p1 (''Identifier after '' @ [CHR 0x27] @ ''def'' @ [CHR 0x27]))
             else
               (let name = val (cur p1) in
                case match IDENT p1 of
                  Inl e \<Rightarrow> Inl e
                | Inr (_, p2) \<Rightarrow> Inr (emit (Store (the_str name)) p2)))
      else if t \<in> {ADD, SUB, MUL, DIV} then
        (case match t p of
           Inl e \<Rightarrow> Inl e
         | Inr (_, p1) \<Rightarrow> Inr (emit (opcode t) p1))
      else Inl (error p ''Unexpected token in expression''))"

text \<open>
  The loop of \<open>code_block\<close> ends: every token but \<open>EOF\<close> moves the lexer's cursor
  forward, and \<open>EOF\<close> ends the loop.
\<close>

definition fuel :: "Parser \<Rightarrow> nat" where
  "fuel p = 2 * (n (lexer p) - i (lexer p)) + (if type (cur p) = EOF then 0 else 1)"

lemma match_fuel:
  assumes "match typ p = Inr (ok, p')" and "type (cur p) = typ" and "typ \<noteq> EOF"
  shows "fuel p' < fuel p"
proof -
  from assms obtain t L' where nt: "next_token (lexer p) = Inr (t, L')"
    and p': "p' = p\<lparr>lexer := L', cur := t\<rparr>"
    by (auto simp: match_def split: sum.splits)
  from next_token_progress [OF nt] assms(2,3) show ?thesis
    by (auto simp: fuel_def p')
qed

lemma emit_fuel: "fuel (emit ins p) = fuel p"
  by (simp add: fuel_def emit_def)

lemma expression_fuel:
  assumes "expression p = Inr p'" and "type (cur p) \<noteq> EOF"
  shows "fuel p' < fuel p"
proof -
  consider (num) "type (cur p) = NUMBER" | (ident) "type (cur p) = IDENT"
    | (def) "type (cur p) = DEF" | (op) "type (cur p) \<in> {ADD, SUB, MUL, DIV}"
    | (other) "type (cur p) \<notin> {NUMBER, IDENT, DEF, ADD, SUB, MUL, DIV}"
    by blast
  then show ?thesis
  proof cases
    case num
    with assms(1) obtain ok p1 where "match NUMBER p = Inr (ok, p1)"
      and "p' = emit (Push (the_int (val (cur p)))) p1"
      by (auto simp: expression_def Let_def split: sum.splits)
    with num match_fuel [of NUMBER p ok p1] show ?thesis by (simp add: emit_fuel)
  next
    case ident
    with assms(1) obtain ok p1 where "match IDENT p = Inr (ok, p1)"
      and "p' = emit (Load (the_str (val (cur p)))) p1"
      by (auto simp: expression_def Let_def split: sum.splits)
    with ident match_fuel [of IDENT p ok p1] show ?thesis by (simp add: emit_fuel)
  next
    case def
    with assms(1) obtain ok p1 ok2 p2 where m1: "match DEF p = Inr (ok, p1)"
      and id: "type (cur p1) = IDENT" and m2: "match IDENT p1 = Inr (ok2, p2)"
      and "p' = emit (Store (the_str (val (cur p1)))) p2"
      by (auto simp: expression_def Let_def split: sum.splits if_splits)
    with def match_fuel [OF m1] match_fuel [OF m2] show ?thesis by (simp add: emit_fuel)
  next
    case op
    with assms(1) obtain ok p1 where m: "match (type (cur p)) p = Inr (ok, p1)"
      and "p' = emit (opcode (type (cur p))) p1"
      by (auto simp: expression_def Let_def split: sum.splits)
    with assms(2) match_fuel [OF m] show ?thesis by (simp add: emit_fuel)
  next
    case other
    with assms(1) show ?thesis by (auto simp: expression_def Let_def)
  qed
qed

function code_block :: "Parser \<Rightarrow> error + Parser" where
  "code_block p =
     (if type (cur p) \<notin> {END, EOF} then
        (case expression p of
           Inl e \<Rightarrow> Inl e
         | Inr p' \<Rightarrow> code_block p')
      else Inr p)"
  by pat_completeness auto
termination
  by (relation "measure fuel") (auto intro: expression_fuel)

declare code_block.simps [simp del]

definition program :: "Parser \<Rightarrow> error + instr list" where
  "program p =
     (case (if type (cur p) = MAIN then
              (case match MAIN p of
                 Inl e \<Rightarrow> Inl e
               | Inr (_, p1) \<Rightarrow>
                   (case code_block p1 of
                      Inl e \<Rightarrow> Inl e
                    | Inr p2 \<Rightarrow> expect END p2))
            else code_block p) of
        Inl e \<Rightarrow> Inl e
      | Inr p3 \<Rightarrow>
          (case expect EOF p3 of
             Inl e \<Rightarrow> Inl e
           | Inr p4 \<Rightarrow> Inr (code (emit Halt p4))))"

subsection \<open>Stack machine\<close>

text \<open>
  The operand stack is a Python list: \<^verbatim>\<open>append\<close> adds at the end, \<^verbatim>\<open>pop\<close> removes
  the last element, so the top of the stack is the last element of the list. The
  environment is a dictionary from names to integers. An exception leaves the machine as
  it was mutated so far; a failure therefore carries the machine state at the raise.
\<close>

record VM =
  code :: "instr list"
  pc :: nat
  stack :: "int list"
  env :: "string \<rightharpoonup> int"

definition VM_init :: "instr list \<Rightarrow> VM" where
  "VM_init c = \<lparr>code = c, pc = 0, stack = [], env = Map.empty\<rparr>"

definition pop1 :: "VM \<Rightarrow> error \<times> VM + int \<times> VM" where
  "pop1 vm =
     (if stack vm = [] then Inl (RuntimeError ''Stack underflow: need one operand'', vm)
      else Inr (last (stack vm), vm\<lparr>stack := butlast (stack vm)\<rparr>))"

definition pop2 :: "VM \<Rightarrow> error \<times> VM + (int \<times> int) \<times> VM" where
  "pop2 vm =
     (if length (stack vm) < 2 then Inl (RuntimeError ''Stack underflow: need two operands'', vm)
      else
        (let b = last (stack vm); vm1 = vm\<lparr>stack := butlast (stack vm)\<rparr>;
             a = last (stack vm1); vm2 = vm1\<lparr>stack := butlast (stack vm1)\<rparr>
         in Inr ((a, b), vm2)))"

definition push :: "int \<Rightarrow> VM \<Rightarrow> VM" where
  "push v vm = vm\<lparr>stack := stack vm @ [v]\<rparr>"

text \<open>
  The dispatch of \<^verbatim>\<open>VM.run\<close> on one fetched instruction, after \<^verbatim>\<open>self.pc += 1\<close>.
  The result is the failure raised, or the machine together with the flag that the loop
  has returned (\<^verbatim>\<open>HALT\<close>).
\<close>

definition dispatch :: "instr \<Rightarrow> VM \<Rightarrow> error \<times> VM + bool \<times> VM" where
  "dispatch ins vm =
     (case ins of
        Halt \<Rightarrow> Inr (True, vm)
      | Push k \<Rightarrow> Inr (False, push k vm)
      | Load name \<Rightarrow>
          (case env vm name of
             None \<Rightarrow> Inl (NameError (''Undefined identifier '' @ [CHR 0x27] @ name @ [CHR 0x27]), vm)
           | Some v \<Rightarrow> Inr (False, push v vm))
      | Store name \<Rightarrow>
          (case pop1 vm of
             Inl e \<Rightarrow> Inl e
           | Inr (v, vm1) \<Rightarrow> Inr (False, vm1\<lparr>env := (env vm1)(name \<mapsto> v)\<rparr>))
      | Add \<Rightarrow>
          (case pop2 vm of
             Inl e \<Rightarrow> Inl e
           | Inr ((a, b), vm1) \<Rightarrow> Inr (False, push (a + b) vm1))
      | Sub \<Rightarrow>
          (case pop2 vm of
             Inl e \<Rightarrow> Inl e
           | Inr ((a, b), vm1) \<Rightarrow> Inr (False, push (a - b) vm1))
      | Mul \<Rightarrow>
          (case pop2 vm of
             Inl e \<Rightarrow> Inl e
           | Inr ((a, b), vm1) \<Rightarrow> Inr (False, push (a * b) vm1))
      | Div \<Rightarrow>
          (case pop2 vm of
             Inl e \<Rightarrow> Inl e
           | Inr ((a, b), vm1) \<Rightarrow>
               if b = 0 then Inl (ZeroDivisionError ''Division by zero'', vm1)
               else Inr (False, push (a div b) vm1)))"

text \<open>One turn of the loop: fetch, advance the program counter, dispatch.\<close>

definition step :: "VM \<Rightarrow> error \<times> VM + bool \<times> VM" where
  "step vm = dispatch (code vm ! pc vm) (vm\<lparr>pc := pc vm + 1\<rparr>)"

lemma pop1_frame: "pop1 vm = Inr (v, vm') \<Longrightarrow> code vm' = code vm \<and> pc vm' = pc vm"
  by (auto simp: pop1_def split: if_splits)

lemma pop2_frame: "pop2 vm = Inr (ab, vm') \<Longrightarrow> code vm' = code vm \<and> pc vm' = pc vm"
  by (auto simp: pop2_def Let_def split: if_splits)

lemma dispatch_frame:
  "dispatch ins vm = Inr (h, vm') \<Longrightarrow> code vm' = code vm \<and> pc vm' = pc vm"
  by (cases ins)
     (auto simp: dispatch_def push_def pop1_def pop2_def Let_def
           split: option.splits if_splits)

lemma step_frame:
  "step vm = Inr (h, vm') \<Longrightarrow> code vm' = code vm \<and> pc vm' = pc vm + 1"
  by (auto simp: step_def dest: dispatch_frame)

function run :: "VM \<Rightarrow> error \<times> VM + VM" where
  "run vm =
     (if pc vm < length (code vm) then
        (case step vm of
           Inl e \<Rightarrow> Inl e
         | Inr (halted, vm') \<Rightarrow> if halted then Inr vm' else run vm')
      else Inr vm)"
  by pat_completeness auto
termination
  by (relation "measure (\<lambda>vm. length (code vm) - pc vm)") (auto dest: step_frame)

declare run.simps [simp del]



text \<open>
  The machine states at the head of each turn of the loop of \<open>run\<close>: the state in
  which the instruction at \<open>pc\<close> is about to be fetched and dispatched.
\<close>

function trace :: "VM \<Rightarrow> VM list" where
  "trace vm =
     (if pc vm < length (code vm) then
        vm # (case step vm of
                Inl e \<Rightarrow> []
              | Inr (halted, vm') \<Rightarrow> if halted then [] else trace vm')
      else [])"
  by pat_completeness auto
termination
  by (relation "measure (\<lambda>vm. length (code vm) - pc vm)") (auto dest: step_frame)

declare trace.simps [simp del]

subsection \<open>The pipeline\<close>

text \<open>
  \<^verbatim>\<open>compile_and_run\<close> without its printing: the final machine, or the failure that
  aborted the invocation.
\<close>

definition compile :: "string \<Rightarrow> error + instr list" where
  "compile s =
     (case Parser_init (Lexer_init s) of
        Inl e \<Rightarrow> Inl e
      | Inr p \<Rightarrow> program p)"

definition compile_and_run :: "string \<Rightarrow> error + VM" where
  "compile_and_run s =
     (case compile s of
        Inl e \<Rightarrow> Inl e
      | Inr bytecode \<Rightarrow>
          (case run (VM_init bytecode) of
             Inl (e, vm) \<Rightarrow> Inl e
           | Inr vm \<Rightarrow> Inr vm))"

section \<open>Properties of the stack machine\<close>

lemma pop2_two: "stack vm = st @ [a, b] \<Longrightarrow> pop2 vm = Inr ((a, b), vm\<lparr>stack := st\<rparr>)"
  by (simp add: pop2_def Let_def butlast_append)

lemma pop2_underflow:
  "length (stack vm) < 2 \<Longrightarrow>
   pop2 vm = Inl (RuntimeError ''Stack underflow: need two operands'', vm)"
  by (simp add: pop2_def)

text \<open>
  C4. With at least two values on the stack, \<open>b\<close> on top and \<open>a\<close> below it, \<open>Div\<close>
  with \<open>b \<noteq> 0\<close> pops both and pushes the floor of the quotient \<open>a / b\<close> (rounding
  toward negative infinity), and \<open>Sub\<close> pushes \<open>a - b\<close>: the deeper value is the left
  operand.
\<close>

theorem C4_div_floor_sub_order:
  assumes "stack vm = st @ [a, b]"
  shows "(b \<noteq> 0 \<longrightarrow>
           dispatch Div vm = Inr (False, vm\<lparr>stack := st @ [\<lfloor>real_of_int a / real_of_int b\<rfloor>]\<rparr>))
       \<and> dispatch Sub vm = Inr (False, vm\<lparr>stack := st @ [a - b]\<rparr>)"
  using assms by (simp add: dispatch_def pop2_two push_def floor_divide_of_int_eq)

theorem C4_witness:
  "dispatch Div \<lparr>code = [Div], pc = 1, stack = [9, - 7, 2], env = Map.empty\<rparr>
     = Inr (False, \<lparr>code = [Div], pc = 1, stack = [9, - 4], env = Map.empty\<rparr>)
   \<and> dispatch Sub \<lparr>code = [Sub], pc = 1, stack = [9, - 7, 2], env = Map.empty\<rparr>
     = Inr (False, \<lparr>code = [Sub], pc = 1, stack = [9, - 9], env = Map.empty\<rparr>)"
  using C4_div_floor_sub_order
          [of "\<lparr>code = [Div], pc = 1, stack = [9, - 7, 2], env = Map.empty\<rparr>" "[9]" "- 7" 2]
        C4_div_floor_sub_order
          [of "\<lparr>code = [Sub], pc = 1, stack = [9, - 7, 2], env = Map.empty\<rparr>" "[9]" "- 7" 2]
  by simp

text \<open>
  C5. \<open>Load name\<close> pushes the environment's value of \<open>name\<close> when there is one, and
  nothing fails; when \<open>name\<close> is unbound it raises \<^verbatim>\<open>NameError\<close> with the message
  \<^verbatim>\<open>Undefined identifier 'name'\<close>.
\<close>

theorem C5_load:
  "(env vm name = Some v \<longrightarrow> dispatch (Load name) vm = Inr (False, vm\<lparr>stack := stack vm @ [v]\<rparr>))
   \<and> (env vm name = None \<longrightarrow>
        dispatch (Load name) vm
          = Inl (NameError (''Undefined identifier '' @ [CHR 0x27] @ name @ [CHR 0x27]), vm))"
  by (simp add: dispatch_def push_def)

theorem C5_witness:
  "dispatch (Load ''x'') \<lparr>code = [Load ''x''], pc = 1, stack = [1], env = [''x'' \<mapsto> 10]\<rparr>
     = Inr (False, \<lparr>code = [Load ''x''], pc = 1, stack = [1, 10], env = [''x'' \<mapsto> 10]\<rparr>)
   \<and> dispatch (Load ''y'') \<lparr>code = [Load ''y''], pc = 1, stack = [1], env = [''x'' \<mapsto> 10]\<rparr>
     = Inl (NameError (''Undefined identifier '' @ [CHR 0x27] @ ''y'' @ [CHR 0x27]),
            \<lparr>code = [Load ''y''], pc = 1, stack = [1], env = [''x'' \<mapsto> 10]\<rparr>)"
  using C5_load [of "\<lparr>code = [Load ''x''], pc = 1, stack = [1], env = [''x'' \<mapsto> 10]\<rparr>" "''x''" 10]
        C5_load [of "\<lparr>code = [Load ''y''], pc = 1, stack = [1], env = [''x'' \<mapsto> 10]\<rparr>" "''y''" 0]
  by simp

text \<open>
  C6. \<open>Add\<close>, \<open>Sub\<close>, \<open>Mul\<close> and \<open>Div\<close> on a stack of fewer than two values, and
  \<open>Store\<close> on an empty stack, raise the stack-underflow \<^verbatim>\<open>RuntimeError\<close>; the machine
  is left as it was.
\<close>

theorem C6_underflow:
  "(length (stack vm) < 2 \<and> ins \<in> {Add, Sub, Mul, Div} \<longrightarrow>
      dispatch ins vm = Inl (RuntimeError ''Stack underflow: need two operands'', vm))
   \<and> (stack vm = [] \<longrightarrow>
      dispatch (Store name) vm = Inl (RuntimeError ''Stack underflow: need one operand'', vm))"
  by (auto simp: dispatch_def pop2_underflow pop1_def)

theorem C6_witness:
  "dispatch Add \<lparr>code = [Add], pc = 1, stack = [3], env = Map.empty\<rparr>
     = Inl (RuntimeError ''Stack underflow: need two operands'',
            \<lparr>code = [Add], pc = 1, stack = [3], env = Map.empty\<rparr>)
   \<and> dispatch (Store ''x'') \<lparr>code = [Store ''x''], pc = 1, stack = [], env = Map.empty\<rparr>
     = Inl (RuntimeError ''Stack underflow: need one operand'',
            \<lparr>code = [Store ''x''], pc = 1, stack = [], env = Map.empty\<rparr>)"
  using C6_underflow [of "\<lparr>code = [Add], pc = 1, stack = [3], env = Map.empty\<rparr>" Add]
        C6_underflow [of "\<lparr>code = [Store ''x''], pc = 1, stack = [], env = Map.empty\<rparr>" _ "''x''"]
  by simp

text \<open>
  C10. When \<open>Div\<close> raises \<^verbatim>\<open>ZeroDivisionError\<close>, both operands have already been
  popped: the stack at the failure is the stack before the instruction without its top
  two values, the environment is the same, and the machine is not in the state it had
  before the instruction.
\<close>

theorem C10_div_zero_state:
  assumes "dispatch Div vm = Inl (ZeroDivisionError msg, vm')"
  shows "2 \<le> length (stack vm) \<and> stack vm' = butlast (butlast (stack vm))
       \<and> env vm' = env vm \<and> vm' \<noteq> vm"
proof -
  from assms have len: "2 \<le> length (stack vm)"
    by (auto simp: dispatch_def pop2_def split: if_splits)
  with assms have vm': "vm' = vm\<lparr>stack := butlast (butlast (stack vm))\<rparr>"
    by (auto simp: dispatch_def pop2_def Let_def split: if_splits)
  have "length (stack vm') \<noteq> length (stack vm)"
    using len by (simp add: vm')
  then have "vm' \<noteq> vm" by auto
  with len vm' show ?thesis by simp
qed

theorem C10_witness:
  "dispatch Div \<lparr>code = [Push 5, Push 0, Div], pc = 3, stack = [8, 5, 0], env = [''x'' \<mapsto> 1]\<rparr>
     = Inl (ZeroDivisionError ''Division by zero'',
            \<lparr>code = [Push 5, Push 0, Div], pc = 3, stack = [8], env = [''x'' \<mapsto> 1]\<rparr>)
   \<and> stack \<lparr>code = [Push 5, Push 0, Div], pc = 3, stack = [8], env = [''x'' \<mapsto> (1::int)]\<rparr>
     = butlast (butlast [8, 5, 0])"
proof -
  have d: "dispatch Div \<lparr>code = [Push 5, Push 0, Div], pc = 3, stack = [8, 5, 0], env = [''x'' \<mapsto> 1]\<rparr>
     = Inl (ZeroDivisionError ''Division by zero'',
            \<lparr>code = [Push 5, Push 0, Div], pc = 3, stack = [8], env = [''x'' \<mapsto> 1]\<rparr>)"
    by (simp add: dispatch_def pop2_def Let_def)
  from C10_div_zero_state [OF d] d show ?thesis by simp
qed

section \<open>The lexer on a text split at the cursor\<close>

text \<open>
  A lexer built by \<open>Lexer_init\<close> keeps \<open>n = length src\<close>. The lemmas below describe
  it by the text \<open>pre\<close> before the cursor and the text after it.
\<close>

lemma peek_at:
  assumes "n L = length (src L)" and "src L = pre @ rest" and "i L = length pre"
  shows "peek L = (if rest = [] then CHR 0x00 else hd rest)"
  using assms by (cases rest) (simp_all add: peek_def)

lemma consume_ws_skip:
  assumes "n L = length (src L)" and "src L = pre @ ws @ rest" and "i L = length pre"
    and "\<forall>c\<in>set ws. isspace c" and "rest = [] \<or> \<not> isspace (hd rest)"
  shows "consume_ws L = L\<lparr>i := length pre + length ws\<rparr>"
  using assms
proof (induction ws arbitrary: L pre)
  case Nil
  then have "peek L = (if rest = [] then CHR 0x00 else hd rest)"
    by (intro peek_at [of L pre rest]) simp_all
  with Nil have "\<not> isspace (peek L)" by (auto simp: isspace_nul)
  then have "consume_ws L = L" by (rule consume_ws_stop)
  with Nil show ?case by simp
next
  case (Cons w ws)
  have "peek L = w"
    using Cons.prems peek_at [of L pre "w # ws @ rest"] by simp
  with Cons.prems have "consume_ws L = consume_ws (L\<lparr>i := i L + 1\<rparr>)"
    by (intro consume_ws_step) simp
  also have "\<dots> = (L\<lparr>i := i L + 1\<rparr>)\<lparr>i := length (pre @ [w]) + length ws\<rparr>"
    using Cons.prems by (intro Cons.IH) simp_all
  finally show ?case by simp
qed

lemma ident_loop_skip:
  assumes "n L = length (src L)" and "src L = pre @ w @ rest" and "i L = length pre"
    and "\<forall>c\<in>set w. isalnum c \<or> c = CHR ''_''"
    and "rest = [] \<or> \<not> (isalnum (hd rest) \<or> hd rest = CHR ''_'')"
  shows "ident_loop L = L\<lparr>i := length pre + length w\<rparr>"
  using assms
proof (induction w arbitrary: L pre)
  case Nil
  then have "peek L = (if rest = [] then CHR 0x00 else hd rest)"
    by (intro peek_at [of L pre rest]) simp_all
  with Nil have "\<not> (isalnum (peek L) \<or> peek L = CHR ''_'')" by (auto simp: isalnum_nul)
  then have "ident_loop L = L" by (rule ident_loop_stop)
  with Nil show ?case by simp
next
  case (Cons c w)
  have "peek L = c"
    using Cons.prems peek_at [of L pre "c # w @ rest"] by simp
  with Cons.prems have "ident_loop L = ident_loop (L\<lparr>i := i L + 1\<rparr>)"
    by (intro ident_loop_step) simp
  also have "\<dots> = (L\<lparr>i := i L + 1\<rparr>)\<lparr>i := length (pre @ [c]) + length w\<rparr>"
    using Cons.prems by (intro Cons.IH) simp_all
  finally show ?case by simp
qed

lemma number_loop_skip:
  assumes "n L = length (src L)" and "src L = pre @ ds @ rest" and "i L = length pre"
    and "\<forall>c\<in>set ds. isdigit c" and "rest = [] \<or> \<not> isdigit (hd rest)"
  shows "number_loop L = L\<lparr>i := length pre + length ds\<rparr>"
  using assms
proof (induction ds arbitrary: L pre)
  case Nil
  then have "peek L = (if rest = [] then CHR 0x00 else hd rest)"
    by (intro peek_at [of L pre rest]) simp_all
  with Nil have "\<not> isdigit (peek L)" by (auto simp: isdigit_nul)
  then have "number_loop L = L" by (rule number_loop_stop)
  with Nil show ?case by simp
next
  case (Cons d ds)
  have "peek L = d"
    using Cons.prems peek_at [of L pre "d # ds @ rest"] by simp
  with Cons.prems have "number_loop L = number_loop (L\<lparr>i := i L + 1\<rparr>)"
    by (intro number_loop_step) simp
  also have "\<dots> = (L\<lparr>i := i L + 1\<rparr>)\<lparr>i := length (pre @ [d]) + length ds\<rparr>"
    using Cons.prems by (intro Cons.IH) simp_all
  finally show ?case by simp
qed

lemma next_token_at_end:
  assumes "n L = length (src L)" and "src L = pre @ ws" and "i L = length pre"
    and "\<forall>c\<in>set ws. isspace c"
  shows "next_token L =
    Inr (\<lparr>type = EOF, val = VNone, pos = length (src L)\<rparr>, L\<lparr>i := length (src L)\<rparr>)"
proof -
  have K: "consume_ws L = L\<lparr>i := length pre + length ws\<rparr>"
    using assms by (intro consume_ws_skip [where rest = "[]"]) simp_all
  have "peek (L\<lparr>i := length pre + length ws\<rparr>) = CHR 0x00"
    using assms by (simp add: peek_def)
  with K show ?thesis
    using assms by (simp add: next_token_eof)
qed


lemma next_token_other_at:
  assumes "n L = length (src L)" and "src L = pre @ ws @ c # rest" and "i L = length pre"
    and "\<forall>x\<in>set ws. isspace x" and "\<not> isspace c" and "c \<noteq> CHR 0x00"
    and "\<not> isalpha c" and "c \<noteq> CHR ''_''" and "\<not> isdigit c"
  shows "next_token L =
    Inr (\<lparr>type = op_type c, val = VStr [c], pos = length pre + length ws\<rparr>,
         L\<lparr>i := length pre + length ws + 1\<rparr>)"
proof -
  have K: "consume_ws L = L\<lparr>i := length pre + length ws\<rparr>"
    using assms by (intro consume_ws_skip [where rest = "c # rest"]) simp_all
  have "peek (L\<lparr>i := length pre + length ws\<rparr>) = c"
    using assms peek_at [of "L\<lparr>i := length pre + length ws\<rparr>" "pre @ ws" "c # rest"]
    by simp
  with K assms show ?thesis by (simp add: next_token_other Let_def)
qed

section \<open>Digit runs\<close>

lemma isdigit_class:
  assumes "isdigit c"
  shows "\<not> isspace c" and "\<not> isalpha c" and "c \<noteq> CHR ''_''" and "c \<noteq> CHR 0x00"
  using assms by (auto simp: isdigit_def isspace_def isalpha_def Let_def)



lemma slice_middle: "slice (a @ b @ c) (length a) (length a + length b) = b"
  by (simp add: slice_def)

text \<open>
  At a nonempty run \<open>ds\<close> of \<^verbatim>\<open>isdigit\<close> characters, \<open>next_token\<close> passes the whole
  run to \<^verbatim>\<open>int\<close>: it raises what \<^verbatim>\<open>int\<close> raises, or returns the \<open>NUMBER\<close> token.
\<close>

lemma next_token_digits_at:
  assumes wf: "n L = length (src L)" and src: "src L = pre @ ws @ ds @ rest"
    and i: "i L = length pre"
    and ws: "\<forall>c\<in>set ws. isspace c" and ds: "ds \<noteq> []" "\<forall>c\<in>set ds. isdigit c"
    and rest: "rest = [] \<or> \<not> isdigit (hd rest)"
  shows "next_token L =
    (case py_int ds of
       Inl e \<Rightarrow> Inl e
     | Inr num \<Rightarrow>
         Inr (\<lparr>type = NUMBER, val = VInt num, pos = length pre + length ws\<rparr>,
              L\<lparr>i := length pre + length ws + length ds\<rparr>))"
proof -
  define K where "K = L\<lparr>i := length pre + length ws\<rparr>"
  obtain d ds' where dsd: "ds = d # ds'" using ds(1) by (cases ds) auto
  with ds(2) have d: "isdigit d" by simp
  have K: "consume_ws L = K"
    unfolding K_def using wf src i ws isdigit_class(1) [OF d] dsd
    by (intro consume_ws_skip [where rest = "ds @ rest"]) simp_all
  have peekK: "peek K = d"
    using wf src dsd peek_at [of K "pre @ ws" "ds @ rest"] by (simp add: K_def)
  have loop: "number_loop K = K\<lparr>i := length (pre @ ws) + length ds\<rparr>"
    using wf src ds(2) rest
    by (intro number_loop_skip [where rest = rest]) (simp_all add: K_def)
  have sl: "slice (src K) (i K) (length (pre @ ws) + length ds) = ds"
    using slice_middle [of "pre @ ws" ds rest] src by (simp add: K_def)
  have "next_token L =
      (case py_int (slice (src (number_loop K)) (i K) (i (number_loop K))) of
         Inl e \<Rightarrow> Inl e
       | Inr num \<Rightarrow> Inr (\<lparr>type = NUMBER, val = VInt num, pos = i K\<rparr>, number_loop K))"
    using next_token_number [of L] K peekK d isdigit_class [OF d] by (simp add: Let_def)
  also have "\<dots> =
      (case py_int ds of
         Inl e \<Rightarrow> Inl e
       | Inr num \<Rightarrow> Inr (\<lparr>type = NUMBER, val = VInt num, pos = i K\<rparr>,
                          K\<lparr>i := length (pre @ ws) + length ds\<rparr>))"
    using sl by (simp add: loop split: sum.splits)
  finally show ?thesis by (simp add: K_def split: sum.splits)
qed



section \<open>Unrecognised characters\<close>




section \<open>Unfolding the loops of the parser and of the machine\<close>

lemma code_block_stop: "type (cur p) \<in> {END, EOF} \<Longrightarrow> code_block p = Inr p"
  by (subst code_block.simps) simp

lemma code_block_step:
  "type (cur p) \<notin> {END, EOF} \<Longrightarrow>
   code_block p = (case expression p of Inl e \<Rightarrow> Inl e | Inr p' \<Rightarrow> code_block p')"
  by (subst code_block.simps) simp


lemma run_step:
  "pc vm < length (code vm) \<Longrightarrow>
   run vm = (case step vm of
               Inl e \<Rightarrow> Inl e
             | Inr (halted, vm') \<Rightarrow> if halted then Inr vm' else run vm')"
  by (subst run.simps) simp



lemma trace_stop: "\<not> pc vm < length (code vm) \<Longrightarrow> trace vm = []"
  by (subst trace.simps) simp


section \<open>The empty program\<close>

lemma run_Halt_only:
  "run (VM_init [Halt]) = Inr \<lparr>code = [Halt], pc = 1, stack = [], env = Map.empty\<rparr>"
  by (simp add: run_step VM_init_def step_def dispatch_def)

text \<open>
  C9. A source text of whitespace only (the empty text included) compiles to the program
  \<open>[Halt]\<close>, and running it succeeds with an empty stack and an empty environment.
\<close>

theorem C9_blank_source:
  assumes "\<forall>c\<in>set s. isspace c"
  shows "compile s = Inr [Halt]
       \<and> compile_and_run s = Inr \<lparr>code = [Halt], pc = 1, stack = [], env = Map.empty\<rparr>"
proof -
  define Lend where "Lend = (Lexer_init s)\<lparr>i := length s\<rparr>"
  define eof where "eof = \<lparr>type = EOF, val = VNone, pos = length s\<rparr>"
  define p where "p = \<lparr>lexer = Lend, cur = eof, code = []\<rparr>"
  have first: "next_token (Lexer_init s) = Inr (eof, Lend)"
    using assms next_token_at_end [of "Lexer_init s" "[]" s]
    by (simp add: Lexer_init_def Lend_def eof_def)
  have again: "next_token Lend = Inr (eof, Lend)"
    using next_token_at_end [of Lend s "[]"]
    by (simp add: Lexer_init_def Lend_def eof_def)
  have init: "Parser_init (Lexer_init s) = Inr p"
    by (simp add: Parser_init_def first p_def)
  have block: "code_block p = Inr p"
    by (rule code_block_stop) (simp add: p_def eof_def)
  have "expect EOF p = Inr p"
    by (simp add: expect_def match_def p_def eof_def again)
  with block have "program p = Inr [Halt]"
    by (simp add: program_def emit_def) (simp add: p_def eof_def)
  with init have c: "compile s = Inr [Halt]"
    by (simp add: compile_def)
  then show ?thesis
    by (simp add: compile_and_run_def run_Halt_only)
qed

theorem C9_witness:
  "compile [] = Inr [Halt]
   \<and> compile_and_run [] = Inr \<lparr>code = [Halt], pc = 1, stack = [], env = Map.empty\<rparr>
   \<and> compile [CHR '' '', CHR 0x09, CHR 0x0A] = Inr [Halt]
   \<and> compile_and_run [CHR '' '', CHR 0x09, CHR 0x0A]
       = Inr \<lparr>code = [Halt], pc = 1, stack = [], env = Map.empty\<rparr>"
proof -
  have ws: "\<forall>c\<in>set [CHR '' '', CHR 0x09, CHR 0x0A]. isspace c"
    by (simp add: isspace_def)
  show ?thesis
    using C9_blank_source [of "[]"] C9_blank_source [OF ws] by simp
qed

section \<open>The examples of the source\<close>

lemma compile_def_example:
  "compile ''10 def x   x 2 *'' = Inr [Push 10, Store ''x'', Load ''x'', Push 2, Mul, Halt]"
  by code_simp

lemma run_def_example:
  "run (VM_init [Push 10, Store ''x'', Load ''x'', Push 2, Mul, Halt])
     = Inr \<lparr>code = [Push 10, Store ''x'', Load ''x'', Push 2, Mul, Halt], pc = 6,
            stack = [20], env = [''x'' \<mapsto> 10]\<rparr>"
  by (simp add: run_step VM_init_def step_def dispatch_def push_def pop1_def pop2_def Let_def)

text \<open>
  C8. Compiling and running \<^verbatim>\<open>"10 def x   x 2 *"\<close> succeeds; afterwards the
  environment binds exactly \<open>x\<close>, to 10, and the stack is \<open>[20]\<close>.
\<close>

theorem C8_def_example:
  "compile_and_run ''10 def x   x 2 *''
     = Inr \<lparr>code = [Push 10, Store ''x'', Load ''x'', Push 2, Mul, Halt], pc = 6,
            stack = [20], env = [''x'' \<mapsto> 10]\<rparr>"
  by (simp add: compile_and_run_def compile_def_example run_def_example)

section \<open>The shape of a compiled program\<close>

lemma match_code: "match typ p = Inr (ok, p') \<Longrightarrow> Parser.code p' = Parser.code p"
  by (auto simp: match_def split: if_splits sum.splits)

lemma expect_code: "expect typ p = Inr p' \<Longrightarrow> Parser.code p' = Parser.code p"
  by (auto simp: expect_def split: sum.splits if_splits dest: match_code)

lemma opcode_not_Halt: "t \<in> {ADD, SUB, MUL, DIV} \<Longrightarrow> opcode t \<noteq> Halt"
  by auto

lemma expression_code:
  assumes "expression p = Inr p'"
  shows "\<exists>ins. ins \<noteq> Halt \<and> Parser.code p' = Parser.code p @ [ins]"
proof -
  consider (num) "type (cur p) = NUMBER" | (ident) "type (cur p) = IDENT"
    | (def) "type (cur p) = DEF" | (op) "type (cur p) \<in> {ADD, SUB, MUL, DIV}"
    | (other) "type (cur p) \<notin> {NUMBER, IDENT, DEF, ADD, SUB, MUL, DIV}"
    by blast
  then show ?thesis
  proof cases
    case num
    with assms obtain ok p1 where "match NUMBER p = Inr (ok, p1)"
      and "p' = emit (Push (the_int (val (cur p)))) p1"
      by (auto simp: expression_def Let_def split: sum.splits)
    then show ?thesis by (auto simp: emit_def dest: match_code)
  next
    case ident
    with assms obtain ok p1 where "match IDENT p = Inr (ok, p1)"
      and "p' = emit (Load (the_str (val (cur p)))) p1"
      by (auto simp: expression_def Let_def split: sum.splits)
    then show ?thesis by (auto simp: emit_def dest: match_code)
  next
    case def
    with assms obtain ok p1 ok2 p2 where m1: "match DEF p = Inr (ok, p1)"
      and m2: "match IDENT p1 = Inr (ok2, p2)"
      and p': "p' = emit (Store (the_str (val (cur p1)))) p2"
      by (auto simp: expression_def Let_def split: sum.splits if_splits)
    from match_code [OF m1] match_code [OF m2] p' show ?thesis by (simp add: emit_def)
  next
    case op
    with assms obtain ok p1 where "match (type (cur p)) p = Inr (ok, p1)"
      and "p' = emit (opcode (type (cur p))) p1"
      by (auto simp: expression_def Let_def split: sum.splits)
    with op opcode_not_Halt [of "type (cur p)"] show ?thesis
      by (auto simp: emit_def dest: match_code)
  next
    case other
    with assms show ?thesis by (auto simp: expression_def Let_def)
  qed
qed

lemma code_block_code:
  "code_block p = Inr p' \<Longrightarrow> \<exists>body. Parser.code p' = Parser.code p @ body \<and> Halt \<notin> set body"
proof (induction p rule: code_block.induct)
  case (1 p)
  show ?case
  proof (cases "type (cur p) \<in> {END, EOF}")
    case True
    with "1.prems" have "p' = p" by (simp add: code_block_stop)
    then show ?thesis by simp
  next
    case False
    with "1.prems" obtain p1 where e: "expression p = Inr p1" and b: "code_block p1 = Inr p'"
      by (auto simp: code_block_step split: sum.splits)
    from expression_code [OF e] obtain ins where
      ins: "ins \<noteq> Halt" "Parser.code p1 = Parser.code p @ [ins]" by blast
    from "1.IH" [OF _ e b] False obtain body where
      "Parser.code p' = Parser.code p1 @ body" "Halt \<notin> set body" by auto
    with ins have "Parser.code p' = Parser.code p @ (ins # body) \<and> Halt \<notin> set (ins # body)"
      by auto
    then show ?thesis by blast
  qed
qed

lemma program_code:
  assumes "program p = Inr prog"
  shows "\<exists>body. prog = Parser.code p @ body @ [Halt] \<and> Halt \<notin> set body"
proof -
  from assms obtain p3 p4 where
    blk: "(if type (cur p) = MAIN then
             (case match MAIN p of
                Inl e \<Rightarrow> Inl e
              | Inr (ok, p1) \<Rightarrow>
                  (case code_block p1 of Inl e \<Rightarrow> Inl e | Inr p2 \<Rightarrow> expect END p2))
           else code_block p) = Inr p3"
    and eof: "expect EOF p3 = Inr p4" and prog: "prog = Parser.code (emit Halt p4)"
    by (auto simp: program_def split: sum.splits)
  have "\<exists>body. Parser.code p3 = Parser.code p @ body \<and> Halt \<notin> set body"
  proof (cases "type (cur p) = MAIN")
    case True
    with blk obtain ok p1 p2 where "match MAIN p = Inr (ok, p1)"
      and "code_block p1 = Inr p2" and "expect END p2 = Inr p3"
      by (auto split: sum.splits)
    then show ?thesis
      using code_block_code [of p1 p2] by (auto dest!: match_code expect_code)
  next
    case False
    with blk show ?thesis by (simp add: code_block_code)
  qed
  then obtain body where "Parser.code p3 = Parser.code p @ body" "Halt \<notin> set body" by blast
  with expect_code [OF eof] prog show ?thesis by (auto simp: emit_def)
qed

lemma compile_shape:
  assumes "compile s = Inr prog"
  shows "\<exists>body. prog = body @ [Halt] \<and> Halt \<notin> set body"
proof -
  from assms obtain p where "Parser_init (Lexer_init s) = Inr p" and p: "program p = Inr prog"
    by (auto simp: compile_def split: sum.splits)
  then have "Parser.code p = []"
    by (auto simp: Parser_init_def split: sum.splits)
  with program_code [OF p] show ?thesis by simp
qed

text \<open>
  C2. Whenever the parse of a source text succeeds, the program returned ends in
  \<open>Halt\<close>, and \<open>Halt\<close> occurs in it exactly once: no earlier position holds one.
\<close>

theorem C2_single_final_halt:
  assumes "compile s = Inr prog"
  shows "prog \<noteq> [] \<and> last prog = Halt \<and> count_list prog Halt = 1
       \<and> (\<forall>k<length prog - 1. prog ! k \<noteq> Halt)"
proof -
  from compile_shape [OF assms] obtain body where
    prog: "prog = body @ [Halt]" and body: "Halt \<notin> set body" by blast
  have "count_list body Halt = 0" using body by (simp add: count_list_0_iff)
  moreover have "\<forall>k<length body. body ! k \<noteq> Halt" using body by (metis nth_mem)
  ultimately show ?thesis by (simp add: prog nth_append)
qed

lemma compile_arith_example:
  "compile ''2 2 + 5 *'' = Inr [Push 2, Push 2, Add, Push 5, Mul, Halt]"
  by code_simp

theorem C2_witness:
  "compile ''2 2 + 5 *'' = Inr [Push 2, Push 2, Add, Push 5, Mul, Halt]
   \<and> last [Push 2, Push 2, Add, Push 5, Mul, Halt] = Halt
   \<and> count_list [Push 2, Push 2, Add, Push 5, Mul, Halt] Halt = 1"
  using C2_single_final_halt [OF compile_arith_example] compile_arith_example by simp

section \<open>Termination, failures and step count of a run\<close>





















section \<open>Postfix expressions and their reference value\<close>

text \<open>
  A postfix expression is a sequence of items: integer literals (nonempty runs of the
  digits 0 to 9) and the four operators. Its source text puts any whitespace before each
  item and at the end; two literals in a row need some whitespace between them, or they
  would read as one literal.
\<close>

datatype item = Lit string | Plus | Minus | Times | Slash

fun lexeme :: "item \<Rightarrow> string" where
  "lexeme (Lit ds) = ds"
| "lexeme Plus = ''+''"
| "lexeme Minus = ''-''"
| "lexeme Times = ''*''"
| "lexeme Slash = ''/''"

fun is_lit :: "item \<Rightarrow> bool" where
  "is_lit (Lit ds) = True"
| "is_lit _ = False"

fun valid_item :: "item \<Rightarrow> bool" where
  "valid_item (Lit ds) = (ds \<noteq> [] \<and> list_all isdecimal ds)"
| "valid_item _ = True"

fun render :: "(string \<times> item) list \<Rightarrow> string" where
  "render [] = []"
| "render ((w, it) # xs) = w @ lexeme it @ render xs"

fun separated :: "(string \<times> item) list \<Rightarrow> bool" where
  "separated ((w1, Lit a) # (w2, Lit b) # xs) = (w2 \<noteq> [] \<and> separated ((w2, Lit b) # xs))"
| "separated (x # xs) = separated xs"
| "separated [] = True"

text \<open>
  The value of a literal in base 10, the last digit being the units; and the reference
  evaluation of a postfix expression, left to right on a stack whose head is the top:
  an operator takes the top value as its right operand and the one below as its left
  operand, and division is the floor of the quotient. The expression has a value when
  exactly one value is left at the end and no division was by zero.
\<close>

fun positional :: "string \<Rightarrow> int" where
  "positional [] = 0"
| "positional (d # ds) = digit_val d + 10 * positional ds"

definition literal_value :: "string \<Rightarrow> int" where
  "literal_value ds = positional (rev ds)"

fun apply_item :: "item \<Rightarrow> int list \<Rightarrow> int list option" where
  "apply_item (Lit ds) st = Some (literal_value ds # st)"
| "apply_item Plus (b # a # st) = Some ((a + b) # st)"
| "apply_item Minus (b # a # st) = Some ((a - b) # st)"
| "apply_item Times (b # a # st) = Some ((a * b) # st)"
| "apply_item Slash (b # a # st) =
     (if b = 0 then None else Some (\<lfloor>real_of_int a / real_of_int b\<rfloor> # st))"
| "apply_item _ _ = None"

fun rpn_stack :: "item list \<Rightarrow> int list \<Rightarrow> int list option" where
  "rpn_stack [] st = Some st"
| "rpn_stack (x # xs) st =
     (case apply_item x st of None \<Rightarrow> None | Some st' \<Rightarrow> rpn_stack xs st')"

definition rpn_value :: "item list \<Rightarrow> int option" where
  "rpn_value xs = (case rpn_stack xs [] of Some [v] \<Rightarrow> Some v | _ \<Rightarrow> None)"

text \<open>The token and the instruction that an item becomes.\<close>

fun token_of :: "item \<Rightarrow> nat \<Rightarrow> Token" where
  "token_of (Lit ds) q = \<lparr>type = NUMBER, val = VInt (literal_value ds), pos = q\<rparr>"
| "token_of Plus q = \<lparr>type = ADD, val = VStr ''+'', pos = q\<rparr>"
| "token_of Minus q = \<lparr>type = SUB, val = VStr ''-'', pos = q\<rparr>"
| "token_of Times q = \<lparr>type = MUL, val = VStr ''*'', pos = q\<rparr>"
| "token_of Slash q = \<lparr>type = DIV, val = VStr ''/'', pos = q\<rparr>"

fun instr_of :: "item \<Rightarrow> instr" where
  "instr_of (Lit ds) = Push (literal_value ds)"
| "instr_of Plus = Add"
| "instr_of Minus = Sub"
| "instr_of Times = Mul"
| "instr_of Slash = Div"

subsection \<open>Lexing an item\<close>

lemma isdecimal_class:
  assumes "isdecimal c"
  shows "isdigit c" and "\<not> isspace c" and "\<not> isalpha c" and "c \<noteq> CHR ''_''" and "c \<noteq> CHR 0x00"
  using assms by (auto simp: isdecimal_def isdigit_def isspace_def isalpha_def Let_def)

lemma isspace_not_isdigit: "isspace c \<Longrightarrow> \<not> isdigit c"
  by (auto simp: isdigit_def isspace_def Let_def)

lemma foldl_positional:
  "foldl (\<lambda>a c. 10 * a + digit_val c) 0 ds = positional (rev ds)"
  by (induction ds rule: rev_induct) simp_all

lemma takeWhile_isdecimal: "list_all isdecimal ds \<Longrightarrow> takeWhile isdecimal ds = ds"
  by (simp add: list_all_iff)

lemma py_int_literal:
  "ds \<noteq> [] \<Longrightarrow> list_all isdecimal ds \<Longrightarrow> length ds \<le> max_str_digits \<Longrightarrow>
   py_int ds = Inr (literal_value ds)"
  by (simp add: py_int_def literal_value_def foldl_positional takeWhile_isdecimal)

lemma py_int_too_long:
  "list_all isdecimal ds \<Longrightarrow> max_str_digits < length ds \<Longrightarrow>
   py_int ds = Inl (ValueError ''Exceeds the limit (4300 digits) for integer string conversion'')"
  by (simp add: py_int_def takeWhile_isdecimal)

lemma next_token_literal_at:
  assumes wf: "n L = length (src L)" and src: "src L = pre @ ws @ ds @ rest"
    and i: "i L = length pre"
    and ws: "\<forall>c\<in>set ws. isspace c" and ds: "ds \<noteq> []" "list_all isdecimal ds"
    and rest: "rest = [] \<or> \<not> isdigit (hd rest)"
    and len: "length ds \<le> max_str_digits"
  shows "next_token L =
    Inr (\<lparr>type = NUMBER, val = VInt (literal_value ds), pos = length pre + length ws\<rparr>,
         L\<lparr>i := length pre + length ws + length ds\<rparr>)"
proof -
  have digits: "\<forall>c\<in>set ds. isdigit c"
    using ds(2) by (auto simp: list_all_iff isdecimal_class(1))
  from next_token_digits_at [OF wf src i ws ds(1) digits rest] py_int_literal [OF ds len]
  show ?thesis by simp
qed

text \<open>
  A source text that is one literal of more than 4300 digits: \<^verbatim>\<open>int\<close> raises in the
  first call of \<open>next_token\<close>, and the invocation fails.
\<close>

lemma compile_and_run_long_literal:
  assumes "list_all isdecimal ds" and "max_str_digits < length ds"
  shows "compile_and_run ds
    = Inl (ValueError ''Exceeds the limit (4300 digits) for integer string conversion'')"
proof -
  have ne: "ds \<noteq> []" using assms(2) by auto
  have digits: "\<forall>c\<in>set ds. isdigit c"
    using assms(1) by (auto simp: list_all_iff isdecimal_class(1))
  have "next_token (Lexer_init ds) = (case py_int ds of
       Inl e \<Rightarrow> Inl e
     | Inr num \<Rightarrow>
         Inr (\<lparr>type = NUMBER, val = VInt num, pos = length ([]::string) + length ([]::string)\<rparr>,
              (Lexer_init ds)\<lparr>i := length ([]::string) + length ([]::string) + length ds\<rparr>))"
    using ne digits
    by (intro next_token_digits_at [where rest = "[]"]) (simp_all add: Lexer_init_def)
  with py_int_too_long [OF assms] have "next_token (Lexer_init ds)
      = Inl (ValueError ''Exceeds the limit (4300 digits) for integer string conversion'')"
    by simp
  then show ?thesis
    by (simp add: compile_and_run_def compile_def Parser_init_def)
qed

lemma next_token_item_at:
  assumes "n L = length (src L)" and "src L = pre @ ws @ lexeme it @ rest"
    and "i L = length pre" and "\<forall>c\<in>set ws. isspace c" and "valid_item it"
    and "is_lit it \<Longrightarrow> rest = [] \<or> \<not> isdigit (hd rest)"
    and "length (lexeme it) \<le> max_str_digits"
  shows "next_token L =
    Inr (token_of it (length pre + length ws),
         L\<lparr>i := length pre + length ws + length (lexeme it)\<rparr>)"
proof (cases it)
  case (Lit ds')
  with assms next_token_literal_at [of L pre ws ds' rest] show ?thesis by simp
next
  case Plus
  with assms next_token_other_at [of L pre ws "CHR ''+''" rest] show ?thesis
    by (simp add: op_type_def isspace_def isalpha_def isdigit_def)
next
  case Minus
  with assms next_token_other_at [of L pre ws "CHR ''-''" rest] show ?thesis
    by (simp add: op_type_def isspace_def isalpha_def isdigit_def)
next
  case Times
  with assms next_token_other_at [of L pre ws "CHR ''*''" rest] show ?thesis
    by (simp add: op_type_def isspace_def isalpha_def isdigit_def)
next
  case Slash
  with assms next_token_other_at [of L pre ws "CHR ''/''" rest] show ?thesis
    by (simp add: op_type_def isspace_def isalpha_def isdigit_def)
qed

subsection \<open>Parsing a rendered expression\<close>

lemma token_of_type: "type (token_of it q) \<in> {NUMBER, ADD, SUB, MUL, DIV}"
  by (cases it) simp_all

lemma expression_item:
  assumes "cur p = token_of it q" and "next_token (lexer p) = Inr (t, L')"
  shows "expression p = Inr \<lparr>lexer = L', cur = t, code = Parser.code p @ [instr_of it]\<rparr>"
  using assms by (cases it) (simp_all add: expression_def match_def emit_def Let_def)

lemma render_head_not_digit:
  assumes "separated ((w0, it0) # xs)" and "is_lit it0"
    and "\<forall>(w, it)\<in>set xs. (\<forall>c\<in>set w. isspace c) \<and> valid_item it
          \<and> length (lexeme it) \<le> max_str_digits"
    and "\<forall>c\<in>set trail. isspace c"
  shows "render xs @ trail = [] \<or> \<not> isdigit (hd (render xs @ trail))"
proof (cases xs)
  case Nil
  with assms(4) show ?thesis
    by (cases trail) (simp_all add: isspace_not_isdigit)
next
  case (Cons x xs')
  obtain w1 it1 where x: "x = (w1, it1)" by (cases x)
  show ?thesis
  proof (cases w1)
    case (Cons c w1')
    with assms(3) \<open>xs = x # xs'\<close> x have "isspace c" by simp
    with Cons \<open>xs = x # xs'\<close> x show ?thesis by (simp add: isspace_not_isdigit)
  next
    case Nil
    from assms(2) obtain a where "it0 = Lit a" by (cases it0) simp_all
    with assms(1) \<open>xs = x # xs'\<close> x Nil have "\<not> is_lit it1"
      by (cases it1) simp_all
    with Nil \<open>xs = x # xs'\<close> x show ?thesis
      by (cases it1) (simp_all add: isdigit_def)
  qed
qed

lemma separated_tail: "separated (x # xs) \<Longrightarrow> separated xs"
  by (induction "x # xs" arbitrary: x xs rule: separated.induct) simp_all

lemma code_block_render:
  assumes "n L = length (src L)" and "src L = pre @ render xs @ trail" and "i L = length pre"
    and "\<forall>(w, it)\<in>set xs. (\<forall>c\<in>set w. isspace c) \<and> valid_item it
          \<and> length (lexeme it) \<le> max_str_digits"
    and "\<forall>c\<in>set trail. isspace c" and "separated ((w0, it0) # xs)"
  shows "code_block \<lparr>lexer = L, cur = token_of it0 q, code = c\<rparr>
    = Inr \<lparr>lexer = L\<lparr>i := length (src L)\<rparr>,
           cur = \<lparr>type = EOF, val = VNone, pos = length (src L)\<rparr>,
           code = c @ map instr_of (it0 # map snd xs)\<rparr>"
  using assms
proof (induction xs arbitrary: L pre w0 it0 q c)
  case Nil
  define p where "p = \<lparr>lexer = L, cur = token_of it0 q, code = c\<rparr>"
  define p1 where "p1 = \<lparr>lexer = L\<lparr>i := length (src L)\<rparr>,
    cur = \<lparr>type = EOF, val = VNone, pos = length (src L)\<rparr>, code = c @ [instr_of it0]\<rparr>"
  have nt: "next_token L =
      Inr (\<lparr>type = EOF, val = VNone, pos = length (src L)\<rparr>, L\<lparr>i := length (src L)\<rparr>)"
    using Nil.prems by (intro next_token_at_end [of L pre trail]) simp_all
  have e: "expression p = Inr p1"
    using expression_item [of p it0 q _ "L\<lparr>i := length (src L)\<rparr>"] nt
    by (simp add: p_def p1_def)
  have "type (cur p) \<notin> {END, EOF}"
    using token_of_type [of it0 q] by (auto simp: p_def)
  then have "code_block p = code_block p1"
    by (simp add: code_block_step e)
  also have "\<dots> = Inr p1"
    by (rule code_block_stop) (simp add: p1_def)
  finally show ?case by (simp add: p_def p1_def)
next
  case (Cons x xs)
  obtain w1 it1 where x: "x = (w1, it1)" by (cases x)
  define p where "p = \<lparr>lexer = L, cur = token_of it0 q, code = c\<rparr>"
  define L1 where "L1 = L\<lparr>i := length pre + length w1 + length (lexeme it1)\<rparr>"
  define p1 where "p1 = \<lparr>lexer = L1, cur = token_of it1 (length pre + length w1),
    code = c @ [instr_of it0]\<rparr>"
  have items: "\<forall>(w, it)\<in>set xs. (\<forall>c\<in>set w. isspace c) \<and> valid_item it
          \<and> length (lexeme it) \<le> max_str_digits"
    and w1: "\<forall>c\<in>set w1. isspace c" and it1: "valid_item it1"
    and len1: "length (lexeme it1) \<le> max_str_digits"
    using Cons.prems(4) x by simp_all
  have sep: "separated ((w1, it1) # xs)"
    using Cons.prems(6) x separated_tail by blast
  have after: "is_lit it1 \<Longrightarrow> render xs @ trail = [] \<or> \<not> isdigit (hd (render xs @ trail))"
    using render_head_not_digit [OF sep _ items Cons.prems(5)] by simp
  have nt: "next_token L = Inr (token_of it1 (length pre + length w1), L1)"
    unfolding L1_def using Cons.prems(1,2,3) x w1 it1 after len1
    by (intro next_token_item_at [where rest = "render xs @ trail"]) simp_all
  have e: "expression p = Inr p1"
    using expression_item [of p it0 q _ L1] nt by (simp add: p_def p1_def)
  have "type (cur p) \<notin> {END, EOF}"
    using token_of_type [of it0 q] by (auto simp: p_def)
  then have "code_block p = code_block p1"
    by (simp add: code_block_step e)
  also have "\<dots> = Inr \<lparr>lexer = L1\<lparr>i := length (src L1)\<rparr>,
           cur = \<lparr>type = EOF, val = VNone, pos = length (src L1)\<rparr>,
           code = (c @ [instr_of it0]) @ map instr_of (it1 # map snd xs)\<rparr>"
    unfolding p1_def
    using Cons.prems(1,2) x items Cons.prems(5) sep
    by (intro Cons.IH [where pre = "pre @ w1 @ lexeme it1" and ?w0.0 = w1])
       (simp_all add: L1_def)
  finally show ?case by (simp add: p_def L1_def x)
qed

lemma compile_render:
  assumes "\<forall>(w, it)\<in>set xs. (\<forall>c\<in>set w. isspace c) \<and> valid_item it
          \<and> length (lexeme it) \<le> max_str_digits"
    and "\<forall>c\<in>set trail. isspace c" and "separated xs" and "xs \<noteq> []"
  shows "compile (render xs @ trail) = Inr (map instr_of (map snd xs) @ [Halt])"
proof -
  obtain w0 it0 ys where xs: "xs = (w0, it0) # ys"
    using assms(4) by (cases xs) auto
  define s where "s = render xs @ trail"
  define L1 where "L1 = (Lexer_init s)\<lparr>i := length w0 + length (lexeme it0)\<rparr>"
  define Lend where "Lend = (Lexer_init s)\<lparr>i := length s\<rparr>"
  define eof where "eof = \<lparr>type = EOF, val = VNone, pos = length s\<rparr>"
  define p where "p = \<lparr>lexer = L1, cur = token_of it0 (length w0), code = []\<rparr>"
  define p3 where "p3 = \<lparr>lexer = Lend, cur = eof, code = map instr_of (map snd xs)\<rparr>"
  have items: "\<forall>(w, it)\<in>set ys. (\<forall>c\<in>set w. isspace c) \<and> valid_item it
          \<and> length (lexeme it) \<le> max_str_digits"
    and w0: "\<forall>c\<in>set w0. isspace c" and it0: "valid_item it0"
    and len0: "length (lexeme it0) \<le> max_str_digits"
    using assms(1) xs by simp_all
  have sep: "separated ((w0, it0) # ys)" using assms(3) xs by simp
  have after: "is_lit it0 \<Longrightarrow> render ys @ trail = [] \<or> \<not> isdigit (hd (render ys @ trail))"
    using render_head_not_digit [OF sep _ items assms(2)] by simp
  have first: "next_token (Lexer_init s) = Inr (token_of it0 (length w0), L1)"
    using next_token_item_at [of "Lexer_init s" "[]" w0 it0 "render ys @ trail"] w0 it0 after len0
    by (simp add: Lexer_init_def s_def xs L1_def)
  have init: "Parser_init (Lexer_init s) = Inr p"
    by (simp add: Parser_init_def first p_def)
  have block: "code_block p = Inr p3"
    using code_block_render [of L1 "w0 @ lexeme it0" ys trail w0 it0 "length w0" "[]"]
          items assms(2) sep
    by (simp add: p_def p3_def L1_def Lend_def eof_def Lexer_init_def s_def xs)
  have again: "next_token Lend = Inr (eof, Lend)"
    using next_token_at_end [of Lend s "[]"]
    by (simp add: Lexer_init_def Lend_def eof_def)
  have "expect EOF p3 = Inr p3"
    by (simp add: expect_def match_def p3_def eof_def again)
  moreover have "type (cur p) \<noteq> MAIN"
    using token_of_type [of it0 "length w0"] by (auto simp: p_def)
  ultimately have "program p = Inr (map instr_of (map snd xs) @ [Halt])"
    using block by (simp add: program_def emit_def) (simp add: p3_def)
  with init show ?thesis by (simp add: compile_def s_def)
qed

subsection \<open>Running the compiled expression\<close>

lemma apply_item_binary:
  assumes "apply_item x st = Some st'" and "\<not> is_lit x"
  obtains b a st0 where "st = b # a # st0"
  using assms by (cases st; cases "tl st"; cases x) auto

lemma dispatch_item:
  assumes "apply_item x st = Some st'" and "stack vm = rev st"
  shows "dispatch (instr_of x) vm = Inr (False, vm\<lparr>stack := rev st'\<rparr>)"
proof (cases x)
  case (Lit ds)
  with assms show ?thesis by (auto simp: dispatch_def push_def)
next
  case Plus
  with assms(1) obtain b a st0 where st: "st = b # a # st0"
    by (auto elim: apply_item_binary)
  with assms(1) Plus have st': "st' = (a + b) # st0" by simp
  from st assms(2) have "pop2 vm = Inr ((a, b), vm\<lparr>stack := rev st0\<rparr>)"
    by (intro pop2_two) simp
  with Plus st' show ?thesis by (simp add: dispatch_def push_def)
next
  case Minus
  with assms(1) obtain b a st0 where st: "st = b # a # st0"
    by (auto elim: apply_item_binary)
  with assms(1) Minus have st': "st' = (a - b) # st0" by simp
  from st assms(2) have "pop2 vm = Inr ((a, b), vm\<lparr>stack := rev st0\<rparr>)"
    by (intro pop2_two) simp
  with Minus st' show ?thesis by (simp add: dispatch_def push_def)
next
  case Times
  with assms(1) obtain b a st0 where st: "st = b # a # st0"
    by (auto elim: apply_item_binary)
  with assms(1) Times have st': "st' = (a * b) # st0" by simp
  from st assms(2) have "pop2 vm = Inr ((a, b), vm\<lparr>stack := rev st0\<rparr>)"
    by (intro pop2_two) simp
  with Times st' show ?thesis by (simp add: dispatch_def push_def)
next
  case Slash
  with assms(1) obtain b a st0 where st: "st = b # a # st0"
    by (auto elim: apply_item_binary)
  with assms(1) Slash have b: "b \<noteq> 0"
    and st': "st' = \<lfloor>real_of_int a / real_of_int b\<rfloor> # st0"
    by (auto split: if_splits)
  from st assms(2) have "pop2 vm = Inr ((a, b), vm\<lparr>stack := rev st0\<rparr>)"
    by (intro pop2_two) simp
  with Slash st' b show ?thesis
    by (simp add: dispatch_def push_def floor_divide_of_int_eq)
qed

lemma run_items:
  assumes "rpn_stack xs st = Some st'"
    and "code vm = pref @ map instr_of xs @ [Halt]" and "pc vm = length pref"
    and "stack vm = rev st"
  shows "run vm = Inr (vm\<lparr>pc := length (code vm), stack := rev st'\<rparr>)"
  using assms
proof (induction xs arbitrary: st vm pref)
  case Nil
  have "step vm = Inr (True, vm\<lparr>pc := pc vm + 1\<rparr>)"
    using Nil.prems by (simp add: step_def dispatch_def)
  moreover have "pc vm < length (code vm)" using Nil.prems by simp
  ultimately have "run vm = Inr (vm\<lparr>pc := pc vm + 1\<rparr>)"
    by (simp add: run_step)
  moreover have "vm\<lparr>pc := pc vm + 1\<rparr> = vm\<lparr>pc := length (code vm), stack := rev st'\<rparr>"
    using Nil.prems by simp
  ultimately show ?case by simp
next
  case (Cons x xs)
  from Cons.prems(1) obtain st1 where a: "apply_item x st = Some st1"
    and r: "rpn_stack xs st1 = Some st'"
    by (auto split: option.splits)
  define vm1 where "vm1 = vm\<lparr>pc := pc vm + 1, stack := rev st1\<rparr>"
  have fetch: "code vm ! pc vm = instr_of x"
    using Cons.prems(2,3) by (simp add: nth_append)
  have "dispatch (instr_of x) (vm\<lparr>pc := pc vm + 1\<rparr>) = Inr (False, vm1)"
    using dispatch_item [OF a, of "vm\<lparr>pc := pc vm + 1\<rparr>"] Cons.prems(4)
    by (simp add: vm1_def)
  then have "step vm = Inr (False, vm1)"
    by (simp add: step_def fetch)
  moreover have "pc vm < length (code vm)" using Cons.prems(2,3) by simp
  ultimately have "run vm = run vm1"
    by (simp add: run_step)
  also have "\<dots> = Inr (vm1\<lparr>pc := length (code vm1), stack := rev st'\<rparr>)"
    using r Cons.prems(2,3)
    by (intro Cons.IH [where pref = "pref @ [instr_of x]" and st = st1])
       (simp_all add: vm1_def)
  finally show ?case by (simp add: vm1_def)
qed

text \<open>
  A valid postfix expression has one literal more than it has operators.
\<close>

lemma rpn_stack_count:
  "rpn_stack xs st = Some st' \<Longrightarrow>
   length st + length (filter is_lit xs) = length st' + length (filter (\<lambda>x. \<not> is_lit x) xs)"
proof (induction xs arbitrary: st)
  case Nil
  then show ?case by simp
next
  case (Cons x xs)
  from Cons.prems obtain st1 where a: "apply_item x st = Some st1"
    and r: "rpn_stack xs st1 = Some st'"
    by (auto split: option.splits)
  show ?case
  proof (cases "is_lit x")
    case True
    then obtain ds where "x = Lit ds" by (cases x) simp_all
    with a have "length st1 = length st + 1" by auto
    with Cons.IH [OF r] True show ?thesis by simp
  next
    case False
    with a obtain b a' st0 where st: "st = b # a' # st0"
      by (auto elim: apply_item_binary)
    with a False have "length st = length st1 + 1"
      by (cases x) (auto split: if_splits)
    with Cons.IH [OF r] False show ?thesis by simp
  qed
qed

text \<open>
  C1, as the code has it. Take a valid postfix expression of integer literals and binary
  operators, each literal of at most 4300 digits, whose reference evaluation meets no
  division by zero and yields \<open>v\<close>, written as source text with any whitespace before
  each item and at the end (and some between two literals in a row). Compiling and
  running that text succeeds, and the final stack is the single value \<open>v\<close>: the top of
  the stack is the reference value.
\<close>

theorem C1_postfix_value:
  assumes "\<forall>(w, it)\<in>set xs. (\<forall>c\<in>set w. isspace c) \<and> valid_item it
          \<and> length (lexeme it) \<le> max_str_digits"
    and "\<forall>c\<in>set trail. isspace c" and "separated xs"
    and "rpn_value (map snd xs) = Some v"
  shows "\<exists>vm. compile_and_run (render xs @ trail) = Inr vm
              \<and> stack vm = [v] \<and> last (stack vm) = v
              \<and> length (filter is_lit (map snd xs))
                  = length (filter (\<lambda>x. \<not> is_lit x) (map snd xs)) + 1"
proof -
  define items where "items = map snd xs"
  from assms(4) have st: "rpn_stack items [] = Some [v]"
    by (auto simp: rpn_value_def items_def split: option.splits list.splits)
  then have "xs \<noteq> []" by (auto simp: items_def)
  with assms have c: "compile (render xs @ trail) = Inr (map instr_of items @ [Halt])"
    unfolding items_def by (intro compile_render)
  define vm0 where "vm0 = VM_init (map instr_of items @ [Halt])"
  have "run vm0 = Inr (vm0\<lparr>pc := length (code vm0), stack := rev [v]\<rparr>)"
    using st
    by (intro run_items [where pref = "[]" and st = "[]"]) (simp_all add: vm0_def VM_init_def)
  with c have "compile_and_run (render xs @ trail)
      = Inr (vm0\<lparr>pc := length (code vm0), stack := [v]\<rparr>)"
    by (simp add: compile_and_run_def vm0_def)
  moreover from rpn_stack_count [OF st]
  have "length (filter is_lit items) = length (filter (\<lambda>x. \<not> is_lit x) items) + 1"
    by simp
  ultimately show ?thesis unfolding items_def by simp
qed

theorem C1_witness:
  "rpn_value [Lit ''2'', Lit ''09'', Minus, Lit ''2'', Slash] = Some (- 4)
   \<and> render [('''', Lit ''2''), ('' '', Lit ''09''), ('' '', Minus), ('''', Lit ''2''), ('' '', Slash)]
       @ '' '' = ''2 09 -2 / ''
   \<and> map_sum id stack (compile_and_run ''2 09 -2 / '') = Inr [- 4]"
proof -
  define xs where
    "xs = [('''', Lit ''2''), ('' '', Lit ''09''), ('' '', Minus), ('''', Lit ''2''), ('' '', Slash)]"
  have sp: "isspace (CHR '' '')" by (simp add: isspace_def)
  have dec: "isdecimal (CHR ''0'')" "isdecimal (CHR ''2'')" "isdecimal (CHR ''9'')"
    by (simp_all add: isdecimal_def)
  have h1: "\<forall>(w, it)\<in>set xs. (\<forall>c\<in>set w. isspace c) \<and> valid_item it
      \<and> length (lexeme it) \<le> max_str_digits"
    by (simp add: xs_def sp dec max_str_digits_def)
  have h2: "\<forall>c\<in>set '' ''. isspace c" by (simp add: sp)
  have h3: "separated xs" by (simp add: xs_def)
  have val: "rpn_value [Lit ''2'', Lit ''09'', Minus, Lit ''2'', Slash] = Some (- 4)"
    by (simp add: rpn_value_def literal_value_def digit_val_def)
  then have h4: "rpn_value (map snd xs) = Some (- 4)" by (simp add: xs_def)
  have r: "render xs @ '' '' = ''2 09 -2 / ''" by (simp add: xs_def)
  from C1_postfix_value [OF h1 h2 h3 h4] val r show ?thesis
    by (auto simp: xs_def)
qed

theorem C1_counterexample:
  "valid_item (Lit (replicate 4301 (CHR ''1'')))
   \<and> rpn_value [Lit (replicate 4301 (CHR ''1''))]
       = Some (literal_value (replicate 4301 (CHR ''1'')))
   \<and> render [([], Lit (replicate 4301 (CHR ''1'')))] @ [] = replicate 4301 (CHR ''1'')
   \<and> compile_and_run (replicate 4301 (CHR ''1''))
       = Inl (ValueError ''Exceeds the limit (4300 digits) for integer string conversion'')"
proof -
  define ds where "ds = replicate 4301 (CHR ''1'')"
  have len: "length ds = 4301" by (simp add: ds_def)
  have dec: "list_all isdecimal ds"
    unfolding ds_def list_all_iff by (simp add: isdecimal_def)
  have ne: "ds \<noteq> []" using len by auto
  have "compile_and_run ds
      = Inl (ValueError ''Exceeds the limit (4300 digits) for integer string conversion'')"
    using dec len by (intro compile_and_run_long_literal) (simp_all add: max_str_digits_def)
  moreover have "valid_item (Lit ds)" using ne dec by simp
  moreover have "rpn_value [Lit ds] = Some (literal_value ds)"
    by (simp add: rpn_value_def)
  moreover have "render [([], Lit ds)] @ [] = ds" by simp
  ultimately show ?thesis unfolding ds_def by blast
qed

end
